theory Spec2Isabelle
  imports Main
begin

section \<open>The template-literal extractor \<^verbatim>\<open>temp_extract.py\<close>\<close>

text \<open>
  The script reads \<^verbatim>\<open>src/index.ts\<close> as text, looks for the marker \<^verbatim>\<open>const js = `\<close>,
  scans from just behind it to the first backtick that is not escaped, and writes the
  scanned text, wrapped in a fixed template, to \<^verbatim>\<open>temp_eval.js\<close>.

  Texts are \<^typ>\<open>string\<close>. The scan compares characters only with the backslash and the
  backtick, and the marker is plain ASCII, so nothing depends on how other characters are
  represented. Python exceptions are values of \<open>error\<close>; the file system is a map from
  paths to texts, passed in and returned.

  A file is the text \<^verbatim>\<open>read_text\<close> returns and \<^verbatim>\<open>write_text\<close> is given: decoding,
  encoding and the translation of line ends are outside the model, and so is every failure
  of the operating system other than a missing input file.
\<close>

subsection \<open>Characters, errors, files\<close>

definition backslash :: char where
  "backslash = CHR 0x5C"

definition backtick :: char where
  "backtick = CHR 0x60"

datatype error =
    FileNotFoundError string
  | ValueError string
  | RuntimeError string

type_synonym fs = "string \<rightharpoonup> string"

definition read_text :: "string \<Rightarrow> fs \<Rightarrow> error + string" where
  "read_text path files =
     (case files path of None \<Rightarrow> Inl (FileNotFoundError path) | Some txt \<Rightarrow> Inr txt)"

definition write_text :: "string \<Rightarrow> string \<Rightarrow> fs \<Rightarrow> fs" where
  "write_text path txt files = files(path \<mapsto> txt)"

subsection \<open>Line 4 and 5: the marker and \<^verbatim>\<open>data.index(marker)\<close>\<close>

definition marker :: string where
  "marker = ''const js = `''"

text \<open>
  \<^verbatim>\<open>str.index\<close>: the lowest position at which \<open>sub\<close> starts in \<open>s\<close>; \<open>None\<close>
  stands for the \<^verbatim>\<open>ValueError\<close> Python raises when there is none.
\<close>

fun py_index :: "string \<Rightarrow> string \<Rightarrow> nat option" where
  "py_index [] sub = (if sub = [] then Some 0 else None)"
| "py_index (c # cs) sub =
     (if take (length sub) (c # cs) = sub then Some 0
      else map_option Suc (py_index cs sub))"

definition start :: "string \<Rightarrow> error + nat" where
  "start data =
     (case py_index data marker of
        None \<Rightarrow> Inl (ValueError ''substring not found'')
      | Some k \<Rightarrow> Inr (k + length marker))"

subsection \<open>Lines 9 to 20: the scan loop\<close>

text \<open>The body of one iteration, after \<^verbatim>\<open>out.append(ch)\<close>: either \<^verbatim>\<open>break\<close>, or go on
  with the new value of \<^verbatim>\<open>escaped\<close>.\<close>

datatype step = Break | Continue bool

definition loop_body :: "char \<Rightarrow> bool \<Rightarrow> step" where
  "loop_body ch escaped =
     (if ch = backslash then Continue (\<not> escaped)
      else if ch = backtick \<and> \<not> escaped then Break
      else Continue False)"

text \<open>
  The \<^verbatim>\<open>while\<close> loop with its \<^verbatim>\<open>else\<close> branch. The state is \<open>i\<close>, \<open>out\<close> and
  \<open>escaped\<close>; on \<^verbatim>\<open>break\<close> the loop hands back \<open>i\<close> and \<open>out\<close>, the terminating
  backtick being the last element of \<open>out\<close>.
\<close>

function scan_loop :: "string \<Rightarrow> nat \<Rightarrow> string \<Rightarrow> bool \<Rightarrow> error + nat \<times> string" where
  "scan_loop data i out escaped =
     (if i < length data then
        (let ch = data ! i; out' = out @ [ch] in
           case loop_body ch escaped of
             Break \<Rightarrow> Inr (i, out')
           | Continue escaped' \<Rightarrow> scan_loop data (i + 1) out' escaped')
      else Inl (RuntimeError ''No closing backtick found''))"
  by pat_completeness auto
termination
  by (relation "measure (\<lambda>(data, i, out, escaped). length data - i)") auto

declare scan_loop.simps [simp del]

subsection \<open>Lines 4 to 21: the extracted content\<close>

definition extract_content :: "string \<Rightarrow> error + string" where
  "extract_content data =
     (case start data of
        Inl e \<Rightarrow> Inl e
      | Inr i \<Rightarrow>
          (case scan_loop data i [] False of
             Inl e \<Rightarrow> Inl e
           | Inr (j, out) \<Rightarrow> Inr (butlast out)))"

subsection \<open>Line 22: the output file\<close>

text \<open>The f-string handed to \<^verbatim>\<open>write_text\<close>.\<close>

definition output_text :: "string \<Rightarrow> string" where
  "output_text content = ''const js = `'' @ content @ ''`;\<newline>console.log(js);\<newline>''"

subsection \<open>The whole script\<close>

definition input_path :: string where
  "input_path = ''src/index.ts''"

definition output_path :: string where
  "output_path = ''temp_eval.js''"

text \<open>The script returns the file system it leaves behind and the exception that ended
  it, if any.\<close>

definition temp_extract :: "fs \<Rightarrow> fs \<times> error option" where
  "temp_extract files =
     (case read_text input_path files of
        Inl e \<Rightarrow> (files, Some e)
      | Inr data \<Rightarrow>
          (case extract_content data of
             Inl e \<Rightarrow> (files, Some e)
           | Inr content \<Rightarrow> (write_text output_path (output_text content) files, None)))"

subsection \<open>Notions used to state the properties\<close>

text \<open>The value of \<^verbatim>\<open>escaped\<close> after the loop body has run over the characters \<open>cs\<close>,
  none of which ended the loop, starting from the value \<open>e\<close>: toggled by a backslash,
  cleared by anything else.\<close>

fun flag_after :: "bool \<Rightarrow> string \<Rightarrow> bool" where
  "flag_after e [] = e"
| "flag_after e (c # cs) = flag_after (if c = backslash then \<not> e else False) cs"

text \<open>Position \<open>n\<close> of the region \<open>r\<close> holds a backtick met with \<^verbatim>\<open>escaped\<close> clear, the
  scan having started at the head of \<open>r\<close> with the flag \<open>e\<close>.\<close>

definition unescaped_delim :: "bool \<Rightarrow> string \<Rightarrow> nat \<Rightarrow> bool" where
  "unescaped_delim e r n \<longleftrightarrow> n < length r \<and> r ! n = backtick \<and> \<not> flag_after e (take n r)"

text \<open>The position of the first such backtick, by recursion on the region.\<close>

fun first_term :: "bool \<Rightarrow> string \<Rightarrow> nat option" where
  "first_term e [] = None"
| "first_term e (c # cs) =
     (case loop_body c e of
        Break \<Rightarrow> Some 0
      | Continue e' \<Rightarrow> map_option Suc (first_term e' cs))"

text \<open>\<open>sub\<close> starts at some position of \<open>s\<close>; \<open>k\<close> is the lowest such position.\<close>

definition occurs :: "string \<Rightarrow> string \<Rightarrow> bool" where
  "occurs sub s \<longleftrightarrow> (\<exists>k \<le> length s. take (length sub) (drop k s) = sub)"

definition first_occurrence :: "string \<Rightarrow> string \<Rightarrow> nat \<Rightarrow> bool" where
  "first_occurrence sub s k \<longleftrightarrow>
     k \<le> length s \<and> take (length sub) (drop k s) = sub \<and>
     (\<forall>j<k. take (length sub) (drop j s) \<noteq> sub)"

text \<open>The three fixed pieces of the output file around the extracted content.\<close>

definition fixed_prefix :: string where
  "fixed_prefix = ''const js = `''"

definition closing_sequence :: string where
  "closing_sequence = ''`;\<newline>''"

definition output_statement :: string where
  "output_statement = ''console.log(js);\<newline>''"

text \<open>
  The loop body as the sentence "the escape flag is cleared before checking" words it,
  to be compared with \<open>loop_body\<close>: on a character that is no backslash the flag is
  cleared first and the backtick is tested against the cleared flag.
\<close>

definition loop_body_clear_first :: "char \<Rightarrow> bool \<Rightarrow> step" where
  "loop_body_clear_first ch escaped =
     (if ch = backslash then Continue (\<not> escaped)
      else (let escaped' = False in
            if ch = backtick \<and> \<not> escaped' then Break else Continue escaped'))"

section \<open>Auxiliary facts\<close>

subsection \<open>The loop and its list recursion\<close>

lemma loop_body_Break_iff: "loop_body c e = Break \<longleftrightarrow> c = backtick \<and> \<not> e"
  by (simp add: loop_body_def backslash_def backtick_def)

lemma loop_body_Continue_iff:
  "loop_body c e = Continue e' \<longleftrightarrow>
     \<not> (c = backtick \<and> \<not> e) \<and> e' = (if c = backslash then \<not> e else False)"
  by (auto simp add: loop_body_def backslash_def backtick_def)

lemma scan_loop_first_term:
  "scan_loop data i out e =
     (case first_term e (drop i data) of
        None \<Rightarrow> Inl (RuntimeError ''No closing backtick found'')
      | Some n \<Rightarrow> Inr (i + n, out @ take (Suc n) (drop i data)))"
proof (induction data i out e rule: scan_loop.induct)
  case (1 data i out escaped)
  show ?case
  proof (cases "i < length data")
    case False
    then show ?thesis by (simp add: scan_loop.simps [of data i])
  next
    case True
    then have d: "drop i data = data ! i # drop (Suc i) data"
      by (simp add: Cons_nth_drop_Suc)
    show ?thesis
    proof (cases "loop_body (data ! i) escaped")
      case Break
      with True d show ?thesis by (simp add: scan_loop.simps [of data i])
    next
      case (Continue e')
      with True have "scan_loop data i out escaped = scan_loop data (i + 1) (out @ [data ! i]) e'"
        by (simp add: scan_loop.simps [of data i])
      also have "\<dots> = (case first_term e' (drop (i + 1) data) of
          None \<Rightarrow> Inl (RuntimeError ''No closing backtick found'')
        | Some n \<Rightarrow> Inr (i + 1 + n, (out @ [data ! i]) @ take (Suc n) (drop (i + 1) data)))"
        using "1.IH" [OF True refl refl Continue] .
      finally show ?thesis using d Continue by (simp split: option.splits)
    qed
  qed
qed

lemma first_term_Some:
  "first_term e r = Some n \<Longrightarrow> unescaped_delim e r n \<and> (\<forall>m<n. \<not> unescaped_delim e r m)"
proof (induction r arbitrary: e n)
  case Nil
  then show ?case by simp
next
  case (Cons c cs)
  show ?case
  proof (cases "loop_body c e")
    case Break
    with Cons.prems have "n = 0" by simp
    with Break show ?thesis by (simp add: unescaped_delim_def loop_body_Break_iff)
  next
    case (Continue e')
    with Cons.prems obtain n' where n': "first_term e' cs = Some n'" "n = Suc n'"
      by auto
    from Continue have e': "e' = (if c = backslash then \<not> e else False)" and nb: "\<not> (c = backtick \<and> \<not> e)"
      by (simp_all add: loop_body_Continue_iff)
    from Cons.IH [OF n'(1)] have ih: "unescaped_delim e' cs n'" "\<forall>m<n'. \<not> unescaped_delim e' cs m"
      by simp_all
    have step: "unescaped_delim e (c # cs) (Suc m) = unescaped_delim e' cs m" for m
      by (simp add: unescaped_delim_def e')
    have zero: "\<not> unescaped_delim e (c # cs) 0"
      using nb by (simp add: unescaped_delim_def)
    show ?thesis
    proof (intro conjI allI impI)
      show "unescaped_delim e (c # cs) n" using ih(1) n'(2) step by simp
    next
      fix m assume "m < n"
      then show "\<not> unescaped_delim e (c # cs) m"
        using zero step ih(2) n'(2) by (cases m) auto
    qed
  qed
qed

lemma first_term_None:
  "first_term e r = None \<Longrightarrow> \<not> unescaped_delim e r m"
proof (induction r arbitrary: e m)
  case Nil
  then show ?case by (simp add: unescaped_delim_def)
next
  case (Cons c cs)
  from Cons.prems obtain e' where c: "loop_body c e = Continue e'" and n: "first_term e' cs = None"
    by (auto split: step.splits)
  from c have e': "e' = (if c = backslash then \<not> e else False)" and nb: "\<not> (c = backtick \<and> \<not> e)"
    by (simp_all add: loop_body_Continue_iff)
  show ?case
  proof (cases m)
    case 0
    then show ?thesis using nb by (simp add: unescaped_delim_def)
  next
    case (Suc m')
    then show ?thesis using Cons.IH [OF n, of m'] by (simp add: unescaped_delim_def e')
  qed
qed

lemma py_index_Some:
  "py_index s sub = Some k \<Longrightarrow>
     k \<le> length s \<and> take (length sub) (drop k s) = sub \<and> (\<forall>j<k. take (length sub) (drop j s) \<noteq> sub)"
proof (induction s arbitrary: k)
  case Nil
  then show ?case by (simp split: if_splits)
next
  case (Cons c cs)
  show ?case
  proof (cases "take (length sub) (c # cs) = sub")
    case True
    with Cons.prems show ?thesis by simp
  next
    case False
    with Cons.prems obtain k' where k': "py_index cs sub = Some k'" "k = Suc k'" by auto
    from Cons.IH [OF k'(1)] have ih: "k' \<le> length cs" "take (length sub) (drop k' cs) = sub"
      "\<forall>j<k'. take (length sub) (drop j cs) \<noteq> sub" by simp_all
    show ?thesis
    proof (intro conjI allI impI)
      show "k \<le> length (c # cs)" using ih(1) k'(2) by simp
      show "take (length sub) (drop k (c # cs)) = sub" using ih(2) k'(2) by simp
    next
      fix j assume "j < k"
      then show "take (length sub) (drop j (c # cs)) \<noteq> sub"
        using False ih(3) k'(2) by (cases j) auto
    qed
  qed
qed

lemma py_index_None:
  "py_index s sub = None \<longleftrightarrow> \<not> occurs sub s"
proof (induction s)
  case Nil
  then show ?case by (auto simp add: occurs_def)
next
  case (Cons c cs)
  have "occurs sub (c # cs) \<longleftrightarrow> take (length sub) (c # cs) = sub \<or> occurs sub cs"
  proof
    assume "occurs sub (c # cs)"
    then obtain k where k: "k \<le> length (c # cs)" "take (length sub) (drop k (c # cs)) = sub"
      by (auto simp add: occurs_def)
    show "take (length sub) (c # cs) = sub \<or> occurs sub cs"
    proof (cases k)
      case 0
      with k show ?thesis by simp
    next
      case (Suc k')
      with k have "k' \<le> length cs" "take (length sub) (drop k' cs) = sub" by simp_all
      then show ?thesis unfolding occurs_def by blast
    qed
  next
    assume "take (length sub) (c # cs) = sub \<or> occurs sub cs"
    then show "occurs sub (c # cs)"
    proof
      assume "take (length sub) (c # cs) = sub"
      then have "take (length sub) (drop 0 (c # cs)) = sub" by simp
      then show ?thesis unfolding occurs_def by blast
    next
      assume "occurs sub cs"
      then obtain k where "k \<le> length cs" "take (length sub) (drop k cs) = sub"
        by (auto simp add: occurs_def)
      then have "Suc k \<le> length (c # cs)" "take (length sub) (drop (Suc k) (c # cs)) = sub"
        by simp_all
      then show ?thesis unfolding occurs_def by blast
    qed
  qed
  with Cons.IH show ?case by auto
qed

lemma occurs_iff_append: "occurs sub s \<longleftrightarrow> (\<exists>pre post. s = pre @ sub @ post)"
proof
  assume "occurs sub s"
  then obtain k where k: "k \<le> length s" "take (length sub) (drop k s) = sub"
    by (auto simp add: occurs_def)
  have "drop k s = take (length sub) (drop k s) @ drop (length sub) (drop k s)"
    by (simp only: append_take_drop_id)
  then have "s = take k s @ take (length sub) (drop k s) @ drop (length sub) (drop k s)"
    by (metis append_take_drop_id)
  with k(2) have "s = take k s @ sub @ drop (length sub) (drop k s)" by simp
  then show "\<exists>pre post. s = pre @ sub @ post" by blast
next
  assume "\<exists>pre post. s = pre @ sub @ post"
  then obtain pre post where s: "s = pre @ sub @ post" by blast
  then have "length pre \<le> length s" "take (length sub) (drop (length pre) s) = sub" by simp_all
  then show "occurs sub s" unfolding occurs_def by blast
qed

lemma first_term_Some_iff:
  "first_term e r = Some n \<longleftrightarrow> unescaped_delim e r n \<and> (\<forall>m<n. \<not> unescaped_delim e r m)"
proof
  assume "first_term e r = Some n"
  then show "unescaped_delim e r n \<and> (\<forall>m<n. \<not> unescaped_delim e r m)"
    by (rule first_term_Some)
next
  assume a: "unescaped_delim e r n \<and> (\<forall>m<n. \<not> unescaped_delim e r m)"
  show "first_term e r = Some n"
  proof (cases "first_term e r")
    case None
    then have "\<not> unescaped_delim e r n" by (rule first_term_None)
    with a show ?thesis by simp
  next
    case (Some n')
    then have n': "unescaped_delim e r n'" "\<forall>m<n'. \<not> unescaped_delim e r m"
      using first_term_Some by blast+
    from a n' have "\<not> n' < n" "\<not> n < n'" by blast+
    then have "n' = n" by simp
    with Some show ?thesis by simp
  qed
qed

lemma first_term_None_iff:
  "first_term e r = None \<longleftrightarrow> (\<forall>m. \<not> unescaped_delim e r m)"
proof
  assume "first_term e r = None"
  then show "\<forall>m. \<not> unescaped_delim e r m" using first_term_None by blast
next
  assume a: "\<forall>m. \<not> unescaped_delim e r m"
  show "first_term e r = None"
  proof (cases "first_term e r")
    case None
    then show ?thesis .
  next
    case (Some n)
    then have "unescaped_delim e r n" using first_term_Some by blast
    with a show ?thesis by simp
  qed
qed

lemma py_index_Some_iff:
  "py_index s sub = Some k \<longleftrightarrow> first_occurrence sub s k"
proof
  assume "py_index s sub = Some k"
  then show "first_occurrence sub s k"
    unfolding first_occurrence_def by (rule py_index_Some)
next
  assume a: "first_occurrence sub s k"
  then have "occurs sub s" unfolding first_occurrence_def occurs_def by blast
  then have "py_index s sub \<noteq> None" by (simp add: py_index_None)
  then obtain k' where k': "py_index s sub = Some k'" by blast
  then have b: "first_occurrence sub s k'"
    unfolding first_occurrence_def by (rule py_index_Some)
  from a b have "\<not> k' < k" "\<not> k < k'" unfolding first_occurrence_def by blast+
  then have "k' = k" by simp
  with k' show "py_index s sub = Some k" by simp
qed

lemma flag_after_append: "flag_after e (xs @ ys) = flag_after (flag_after e xs) ys"
  by (induction xs arbitrary: e) simp_all

lemma flag_after_replicate:
  "flag_after e (replicate n backslash) = (if even n then e else \<not> e)"
  by (induction n arbitrary: e) simp_all

lemma flag_after_snoc_other: "c \<noteq> backslash \<Longrightarrow> \<not> flag_after e (xs @ [c])"
  by (simp add: flag_after_append)

lemma first_term_replicate: "first_term e (replicate n backslash) = None"
  by (induction n arbitrary: e) (simp_all add: loop_body_def)

lemma first_term_append:
  "first_term e xs = None \<Longrightarrow>
   first_term e (xs @ ys) = map_option (\<lambda>n. length xs + n) (first_term (flag_after e xs) ys)"
proof (induction xs arbitrary: e)
  case Nil
  then show ?case by (simp add: option.map_ident)
next
  case (Cons c cs)
  from Cons.prems obtain e' where c: "loop_body c e = Continue e'" and n: "first_term e' cs = None"
    by (auto split: step.splits)
  from c have e': "e' = (if c = backslash then \<not> e else False)"
    by (simp add: loop_body_Continue_iff)
  show ?case using Cons.IH [OF n] c e' by (simp add: option.map_comp comp_def)
qed

lemma scan_loop_skip:
  assumes "drop i data = xs @ rest" and "first_term e xs = None"
  shows "scan_loop data i out e = scan_loop data (i + length xs) (out @ xs) (flag_after e xs)"
proof -
  have "drop (i + length xs) data = drop (length xs) (drop i data)"
    by (simp add: add.commute)
  with assms(1) have r: "drop (i + length xs) data = rest" by simp
  show ?thesis
    unfolding scan_loop_first_term [of data i] scan_loop_first_term [of data "i + length xs"]
    by (simp add: assms(1) r first_term_append [OF assms(2)] split: option.splits)
qed

lemma start_first_occurrence:
  "first_occurrence marker data k \<Longrightarrow> start data = Inr (k + length marker)"
proof -
  assume "first_occurrence marker data k"
  then have "py_index data marker = Some k" by (simp add: py_index_Some_iff)
  then show ?thesis by (simp add: start_def)
qed

lemma start_no_marker:
  "\<not> occurs marker data \<Longrightarrow> start data = Inl (ValueError ''substring not found'')"
proof -
  assume "\<not> occurs marker data"
  then have "py_index data marker = None" by (simp add: py_index_None)
  then show ?thesis by (simp add: start_def)
qed

lemma extract_content_found:
  assumes "first_occurrence marker data k"
    and "first_term False (drop (k + length marker) data) = Some n"
  shows "extract_content data = Inr (take n (drop (k + length marker) data))"
proof -
  let ?r = "drop (k + length marker) data"
  from assms(2) have "unescaped_delim False ?r n" by (simp add: first_term_Some_iff)
  then have "n < length ?r" by (simp add: unescaped_delim_def)
  then have "butlast (take (Suc n) ?r) = take n ?r"
    by (simp add: butlast_take)
  then show ?thesis
    using assms(2) by (simp add: extract_content_def start_first_occurrence [OF assms(1)]
        scan_loop_first_term)
qed

lemma extract_content_not_found:
  assumes "first_occurrence marker data k"
    and "first_term False (drop (k + length marker) data) = None"
  shows "extract_content data = Inl (RuntimeError ''No closing backtick found'')"
  using assms(2) by (simp add: extract_content_def start_first_occurrence [OF assms(1)]
      scan_loop_first_term)

lemma extract_content_no_marker:
  "\<not> occurs marker data \<Longrightarrow> extract_content data = Inl (ValueError ''substring not found'')"
  by (simp add: extract_content_def start_no_marker)

lemma input_path_neq_output_path: "input_path \<noteq> output_path"
  by (simp add: input_path_def output_path_def)

lemma temp_extract_success:
  "files input_path = Some data \<Longrightarrow> extract_content data = Inr content \<Longrightarrow>
   temp_extract files = (files(output_path \<mapsto> output_text content), None)"
  by (simp add: temp_extract_def read_text_def write_text_def)

lemma temp_extract_failure:
  "files input_path = Some data \<Longrightarrow> extract_content data = Inl err \<Longrightarrow>
   temp_extract files = (files, Some err)"
  by (simp add: temp_extract_def read_text_def)

lemma output_text_pieces:
  "output_text content = fixed_prefix @ content @ closing_sequence @ output_statement"
  by (simp add: output_text_def fixed_prefix_def closing_sequence_def output_statement_def)

subsection \<open>Facts for runs of backslashes and escaped backticks\<close>

lemma backslash_neq_backtick: "backslash \<noteq> backtick"
  by (simp add: backslash_def backtick_def)

lemma flag_after_clear_at_run_start:
  assumes "pre = [] \<or> last pre \<noteq> backslash"
  shows "\<not> flag_after False pre"
proof (cases "pre = []")
  case True
  then show ?thesis by simp
next
  case False
  with assms have "last pre \<noteq> backslash" by simp
  then have "\<not> flag_after False (butlast pre @ [last pre])" by (rule flag_after_snoc_other)
  with False show ?thesis by simp
qed

lemma scan_loop_at_backtick:
  assumes "drop j data = backtick # rest"
  shows "scan_loop data j out False = Inr (j, out @ [backtick])"
    and "scan_loop data j out True = scan_loop data (j + 1) (out @ [backtick]) False"
proof -
  show "scan_loop data j out False = Inr (j, out @ [backtick])"
    by (simp add: scan_loop_first_term assms loop_body_def backslash_neq_backtick [symmetric])
  have n: "first_term True [backtick] = None"
    by (simp add: loop_body_def backslash_neq_backtick [symmetric])
  from assms have d: "drop j data = [backtick] @ rest" by simp
  from scan_loop_skip [OF d n, of out]
  show "scan_loop data j out True = scan_loop data (j + 1) (out @ [backtick]) False"
    by (simp add: backslash_neq_backtick [symmetric])
qed

lemma scan_loop_position:
  "scan_loop data i out e = Inr (p, out') \<Longrightarrow> i \<le> p"
  by (auto simp add: scan_loop_first_term split: option.splits)

lemma drop_at_backtick:
  "i < length data \<Longrightarrow> data ! i = backtick \<Longrightarrow> drop i data = backtick # drop (Suc i) data"
  by (simp add: Cons_nth_drop_Suc [symmetric])

section \<open>The properties\<close>

text \<open>
  C1. For every source text that contains the marker, extraction starts at the position
  right behind the first occurrence of the marker (\<open>start\<close> is that position), and
  whenever it succeeds the loop has stopped on a backtick \<open>n\<close> characters further on,
  met with the flag clear and the first of its kind, and the content is exactly the \<open>n\<close>
  characters from the start position up to that backtick, which is not part of it.
\<close>

theorem extraction_from_marker_to_first_delimiter:
  assumes "\<exists>pre post. data = pre @ marker @ post"
  shows "\<exists>k. first_occurrence marker data k \<and> start data = Inr (k + length marker) \<and>
    (\<forall>content. extract_content data = Inr content \<longrightarrow>
      (\<exists>n. scan_loop data (k + length marker) [] False
              = Inr (k + length marker + n, content @ [backtick]) \<and>
           content = take n (drop (k + length marker) data) \<and>
           unescaped_delim False (drop (k + length marker) data) n \<and>
           (\<forall>m<n. \<not> unescaped_delim False (drop (k + length marker) data) m)))"
proof -
  from assms have "occurs marker data" by (simp add: occurs_iff_append)
  then have "py_index data marker \<noteq> None" by (simp add: py_index_None)
  then obtain k where "py_index data marker = Some k" by blast
  then have k: "first_occurrence marker data k" by (simp add: py_index_Some_iff)
  let ?s = "k + length marker"
  let ?r = "drop ?s data"
  have "\<exists>n. scan_loop data ?s [] False = Inr (?s + n, content @ [backtick]) \<and>
           content = take n ?r \<and> unescaped_delim False ?r n \<and>
           (\<forall>m<n. \<not> unescaped_delim False ?r m)"
    if c: "extract_content data = Inr content" for content
  proof (cases "first_term False ?r")
    case None
    from extract_content_not_found [OF k None] c show ?thesis by simp
  next
    case (Some n)
    from extract_content_found [OF k Some] c have eq: "content = take n ?r" by simp
    from Some have u: "unescaped_delim False ?r n" "\<forall>m<n. \<not> unescaped_delim False ?r m"
      by (simp_all add: first_term_Some_iff)
    from u(1) have "n < length ?r" "?r ! n = backtick" by (simp_all add: unescaped_delim_def)
    then have "take (Suc n) ?r = take n ?r @ [backtick]"
      by (simp add: take_Suc_conv_app_nth)
    with Some eq have "scan_loop data ?s [] False = Inr (?s + n, content @ [backtick])"
      by (simp add: scan_loop_first_term)
    with eq u show ?thesis by blast
  qed
  with k start_first_occurrence [OF k] show ?thesis by blast
qed

theorem extraction_from_marker_to_first_delimiter_witness:
  "(\<exists>pre post. ''x = 1; const js = `abc`; y'' = pre @ marker @ post) \<and>
   start ''x = 1; const js = `abc`; y'' = Inr 19 \<and>
   extract_content ''x = 1; const js = `abc`; y'' = Inr ''abc'' \<and>
   scan_loop ''x = 1; const js = `abc`; y'' 19 [] False = Inr (22, ''abc`'')"
proof -
  let ?d = "''x = 1; const js = `abc`; y''"
  have "?d = ''x = 1; '' @ marker @ ''abc`; y''" by (simp add: marker_def)
  then have h: "\<exists>pre post. ?d = pre @ marker @ post" by blast
  have s: "start ?d = Inr 19" by code_simp
  have c: "extract_content ?d = Inr ''abc''" by code_simp
  have lm: "length marker = 12" by (simp add: marker_def)
  from extraction_from_marker_to_first_delimiter [OF h] obtain k where
    k: "start ?d = Inr (k + length marker)" and
    a: "\<forall>content. extract_content ?d = Inr content \<longrightarrow>
      (\<exists>n. scan_loop ?d (k + length marker) [] False
              = Inr (k + length marker + n, content @ [backtick]) \<and>
           content = take n (drop (k + length marker) ?d))"
    by blast
  from k s lm have k7: "k + length marker = 19" by simp
  from a c obtain n where n: "scan_loop ?d (k + length marker) [] False
              = Inr (k + length marker + n, ''abc'' @ [backtick])"
     "''abc'' = take n (drop (k + length marker) ?d)"
    by blast
  from n(2) have "length ''abc'' = length (take n (drop 19 ?d))" by (simp only: k7)
  then have "n = 3" by simp
  with n(1) k7 have "scan_loop ?d 19 [] False = Inr (22, ''abc`'')"
    by (simp add: backtick_def)
  with h s c show ?thesis by blast
qed

text \<open>
  C2. Whenever extraction succeeds, the script ends without an exception and the output
  file holds the fixed prefix, the extracted content as it is, the fixed closing sequence
  and the fixed output statement, in this order; so it begins with the fixed prefix and
  ends with the output statement whatever the content is.
\<close>

theorem output_file_wraps_content:
  assumes "files input_path = Some data" and "extract_content data = Inr content"
  shows "temp_extract files =
      (files(output_path \<mapsto> fixed_prefix @ content @ closing_sequence @ output_statement), None) \<and>
    (\<exists>rest. fst (temp_extract files) output_path = Some (fixed_prefix @ rest)) \<and>
    (\<exists>front. fst (temp_extract files) output_path = Some (front @ output_statement))"
proof -
  have t: "temp_extract files =
      (files(output_path \<mapsto> fixed_prefix @ content @ closing_sequence @ output_statement), None)"
    using temp_extract_success [of files data content, OF assms] by (simp only: output_text_pieces)
  then have o: "fst (temp_extract files) output_path =
      Some (fixed_prefix @ content @ closing_sequence @ output_statement)"
    by simp
  have "fst (temp_extract files) output_path =
      Some ((fixed_prefix @ content @ closing_sequence) @ output_statement)"
    using o by simp
  then have "\<exists>front. fst (temp_extract files) output_path = Some (front @ output_statement)"
    by (rule exI)
  with t o show ?thesis by blast
qed

theorem output_file_wraps_content_witness:
  "[input_path \<mapsto> ''const js = `abc`''] input_path = Some ''const js = `abc`'' \<and>
   extract_content ''const js = `abc`'' = Inr ''abc'' \<and>
   temp_extract [input_path \<mapsto> ''const js = `abc`''] =
     ([input_path \<mapsto> ''const js = `abc`'',
       output_path \<mapsto> ''const js = `abc`;\<newline>console.log(js);\<newline>''], None)"
proof -
  let ?d = "''const js = `abc`''"
  have f: "[input_path \<mapsto> ?d] input_path = Some ?d" by simp
  have c: "extract_content ?d = Inr ''abc''" by code_simp
  from output_file_wraps_content [of "[input_path \<mapsto> ?d]" ?d "''abc''", OF f c] have
    "temp_extract [input_path \<mapsto> ?d] =
       ([input_path \<mapsto> ?d,
         output_path \<mapsto> fixed_prefix @ ''abc'' @ closing_sequence @ output_statement], None)"
    by blast
  then have "temp_extract [input_path \<mapsto> ?d] =
     ([input_path \<mapsto> ?d, output_path \<mapsto> ''const js = `abc`;\<newline>console.log(js);\<newline>''], None)"
    by (simp add: fixed_prefix_def closing_sequence_def output_statement_def)
  with f c show ?thesis by blast
qed

text \<open>
  C3. For every input text in which the marker does not occur, the script ends with the
  exception of \<^verbatim>\<open>data.index\<close>, a \<^verbatim>\<open>ValueError\<close> with its message (the spec's
  MarkerNotFound), and leaves the file system as it found it: no output file is written.
\<close>

theorem missing_marker_fails_without_output:
  assumes "files input_path = Some data" and "\<not> (\<exists>pre post. data = pre @ marker @ post)"
  shows "extract_content data = Inl (ValueError ''substring not found'') \<and>
    temp_extract files = (files, Some (ValueError ''substring not found''))"
proof -
  from assms(2) have "\<not> occurs marker data" by (simp add: occurs_iff_append)
  then have e: "extract_content data = Inl (ValueError ''substring not found'')"
    by (rule extract_content_no_marker)
  with temp_extract_failure [of files data, OF assms(1) e] show ?thesis by simp
qed

theorem missing_marker_fails_without_output_witness:
  "[input_path \<mapsto> ''let js = `abc`''] input_path = Some ''let js = `abc`'' \<and>
   \<not> (\<exists>pre post. ''let js = `abc`'' = pre @ marker @ post) \<and>
   temp_extract [input_path \<mapsto> ''let js = `abc`''] =
     ([input_path \<mapsto> ''let js = `abc`''], Some (ValueError ''substring not found'')) \<and>
   fst (temp_extract [input_path \<mapsto> ''let js = `abc`'']) output_path = None"
proof -
  let ?d = "''let js = `abc`''"
  have f: "[input_path \<mapsto> ?d] input_path = Some ?d" by simp
  have "py_index ?d marker = None" by code_simp
  then have h: "\<not> (\<exists>pre post. ?d = pre @ marker @ post)"
    by (simp only: py_index_None occurs_iff_append not_False_eq_True)
  from missing_marker_fails_without_output [of "[input_path \<mapsto> ?d]" ?d, OF f h] have
    t: "temp_extract [input_path \<mapsto> ?d] = ([input_path \<mapsto> ?d], Some (ValueError ''substring not found''))"
    by blast
  then have "fst (temp_extract [input_path \<mapsto> ?d]) output_path = None"
    by (simp add: input_path_def output_path_def)
  with f h t show ?thesis by blast
qed

text \<open>
  C4. For every input text that contains the marker and has, behind the first occurrence
  of the marker, no backtick met with the flag clear up to the end of the input, the
  script ends with \<^verbatim>\<open>RuntimeError('No closing backtick found')\<close> (the spec's
  DelimiterNotFound) and leaves the file system as it found it: no output file is written.
\<close>

theorem missing_delimiter_fails_without_output:
  assumes "files input_path = Some data"
    and "first_occurrence marker data k"
    and "\<forall>n. \<not> unescaped_delim False (drop (k + length marker) data) n"
  shows "extract_content data = Inl (RuntimeError ''No closing backtick found'') \<and>
    temp_extract files = (files, Some (RuntimeError ''No closing backtick found''))"
proof -
  from assms(3) have "first_term False (drop (k + length marker) data) = None"
    by (simp add: first_term_None_iff)
  from extract_content_not_found [OF assms(2) this]
  have e: "extract_content data = Inl (RuntimeError ''No closing backtick found'')" .
  with temp_extract_failure [of files data, OF assms(1) e] show ?thesis by simp
qed

theorem missing_delimiter_fails_without_output_witness:
  "[input_path \<mapsto> ''const js = `ab'' @ [backslash, backtick]] input_path
     = Some (''const js = `ab'' @ [backslash, backtick]) \<and>
   first_occurrence marker (''const js = `ab'' @ [backslash, backtick]) 0 \<and>
   temp_extract [input_path \<mapsto> ''const js = `ab'' @ [backslash, backtick]] =
     ([input_path \<mapsto> ''const js = `ab'' @ [backslash, backtick]],
      Some (RuntimeError ''No closing backtick found'')) \<and>
   fst (temp_extract [input_path \<mapsto> ''const js = `ab'' @ [backslash, backtick]]) output_path = None"
proof -
  let ?d = "''const js = `ab'' @ [backslash, backtick]"
  have f: "[input_path \<mapsto> ?d] input_path = Some ?d" by simp
  have "py_index ?d marker = Some 0" by code_simp
  then have k: "first_occurrence marker ?d 0" by (simp only: py_index_Some_iff)
  have "first_term False (drop (0 + length marker) ?d) = None" by code_simp
  then have u: "\<forall>n. \<not> unescaped_delim False (drop (0 + length marker) ?d) n"
    using first_term_None_iff by blast
  from missing_delimiter_fails_without_output [of "[input_path \<mapsto> ?d]" ?d 0, OF f k u]
  have t: "temp_extract [input_path \<mapsto> ?d] =
     ([input_path \<mapsto> ?d], Some (RuntimeError ''No closing backtick found''))"
    by blast
  then have "fst (temp_extract [input_path \<mapsto> ?d]) output_path = None"
    by (simp add: input_path_def output_path_def)
  with f k t show ?thesis by blast
qed

text \<open>
  C5. Each backslash toggles the flag. So when the scan, started at \<open>i\<close> with the flag
  clear, gets through \<open>pre\<close> (no backtick met with the flag clear) and then through a run
  of \<open>n\<close> backslashes that starts the region or follows another character, it leaves the
  run with the flag set if and only if \<open>n\<close> is odd. A backtick right behind the run ends
  the scan there when \<open>n\<close> is even; when \<open>n\<close> is odd the scan does not end there and goes
  on behind the backtick with the flag clear.
\<close>

theorem backslash_run_parity:
  assumes "drop i data = pre @ replicate n backslash @ tail"
    and "\<forall>m. \<not> unescaped_delim False pre m"
    and "pre = [] \<or> last pre \<noteq> backslash"
  shows "(\<forall>e. loop_body backslash e = Continue (\<not> e)) \<and>
    scan_loop data i out False =
      scan_loop data (i + length pre + n) (out @ pre @ replicate n backslash) (odd n) \<and>
    (\<forall>rest. tail = backtick # rest \<longrightarrow>
       (even n \<longrightarrow> scan_loop data i out False =
          Inr (i + length pre + n, out @ pre @ replicate n backslash @ [backtick])) \<and>
       (odd n \<longrightarrow> scan_loop data i out False =
          scan_loop data (i + length pre + n + 1) (out @ pre @ replicate n backslash @ [backtick]) False \<and>
          (\<forall>out'. scan_loop data i out False \<noteq> Inr (i + length pre + n, out'))))"
proof -
  let ?xs = "pre @ replicate n backslash"
  let ?j = "i + length pre + n"
  have toggle: "\<forall>e. loop_body backslash e = Continue (\<not> e)"
    by (simp add: loop_body_def)
  from assms(2) have p: "first_term False pre = None" by (simp add: first_term_None_iff)
  have c: "\<not> flag_after False pre" using assms(3) by (rule flag_after_clear_at_run_start)
  have x: "first_term False ?xs = None"
    using first_term_append [OF p, of "replicate n backslash"] by (simp add: first_term_replicate)
  have fl: "flag_after False ?xs = odd n"
    using c by (simp add: flag_after_append flag_after_replicate)
  from assms(1) have d: "drop i data = ?xs @ tail" by simp
  have skip: "scan_loop data i out False = scan_loop data ?j (out @ ?xs) (odd n)"
    using scan_loop_skip [OF d x, of out] fl by (simp add: add.assoc)
  have after: "(even n \<longrightarrow> scan_loop data i out False =
          Inr (?j, out @ pre @ replicate n backslash @ [backtick])) \<and>
       (odd n \<longrightarrow> scan_loop data i out False =
          scan_loop data (?j + 1) (out @ pre @ replicate n backslash @ [backtick]) False \<and>
          (\<forall>out'. scan_loop data i out False \<noteq> Inr (?j, out')))"
    if t: "tail = backtick # rest" for rest
  proof -
    have "drop ?j data = drop (length ?xs) (drop i data)"
      by (simp add: add.commute add.left_commute)
    with d t have b: "drop ?j data = backtick # rest" by simp
    show ?thesis
    proof (cases "even n")
      case True
      with skip scan_loop_at_backtick(1) [OF b, of "out @ ?xs"] show ?thesis by simp
    next
      case False
      with skip scan_loop_at_backtick(2) [OF b, of "out @ ?xs"]
      have go: "scan_loop data i out False =
          scan_loop data (?j + 1) (out @ pre @ replicate n backslash @ [backtick]) False"
        by simp
      have "scan_loop data i out False \<noteq> Inr (?j, out')" for out'
      proof
        assume "scan_loop data i out False = Inr (?j, out')"
        with go have "scan_loop data (?j + 1) (out @ pre @ replicate n backslash @ [backtick]) False
          = Inr (?j, out')" by simp
        then have "?j + 1 \<le> ?j" by (rule scan_loop_position)
        then show False by simp
      qed
      with go False show ?thesis by simp
    qed
  qed
  from toggle skip after show ?thesis by blast
qed

theorem backslash_run_parity_witness:
  "drop 0 (''a'' @ [backslash, backslash, backtick]) = ''a'' @ replicate 2 backslash @ [backtick] \<and>
   drop 0 (''a'' @ [backslash, backtick, backtick]) = ''a'' @ replicate 1 backslash @ [backtick, backtick] \<and>
   scan_loop (''a'' @ [backslash, backslash, backtick]) 0 [] False
     = Inr (3, ''a'' @ [backslash, backslash, backtick]) \<and>
   scan_loop (''a'' @ [backslash, backtick, backtick]) 0 [] False
     = Inr (3, ''a'' @ [backslash, backtick, backtick])"
proof -
  let ?d2 = "''a'' @ [backslash, backslash, backtick]"
  let ?d1 = "''a'' @ [backslash, backtick, backtick]"
  have d2: "drop 0 ?d2 = ''a'' @ replicate 2 backslash @ [backtick]"
    by (simp add: numeral_2_eq_2)
  have d1: "drop 0 ?d1 = ''a'' @ replicate 1 backslash @ [backtick, backtick]"
    by simp
  have "first_term False ''a'' = None" by code_simp
  then have u: "\<forall>m. \<not> unescaped_delim False ''a'' m" using first_term_None_iff by blast
  have l: "''a'' = [] \<or> last ''a'' \<noteq> backslash" by (simp add: backslash_def)
  from backslash_run_parity [OF d2 u l, of "[]"]
  have "even (2::nat) \<longrightarrow> scan_loop ?d2 0 [] False =
      Inr (0 + length ''a'' + 2, [] @ ''a'' @ replicate 2 backslash @ [backtick])"
    by blast
  then have r2: "scan_loop ?d2 0 [] False = Inr (3, ''a'' @ [backslash, backslash, backtick])"
    by (simp add: numeral_2_eq_2)
  from backslash_run_parity [OF d1 u l, of "[]"]
  have "odd (1::nat) \<longrightarrow> scan_loop ?d1 0 [] False =
      scan_loop ?d1 (0 + length ''a'' + 1 + 1) ([] @ ''a'' @ replicate 1 backslash @ [backtick]) False"
    by blast
  then have "scan_loop ?d1 0 [] False = scan_loop ?d1 3 (''a'' @ [backslash, backtick]) False"
    by (simp add: numeral_3_eq_3)
  also have "\<dots> = Inr (3, ''a'' @ [backslash, backtick, backtick])"
    by code_simp
  finally have r1: "scan_loop ?d1 0 [] False = Inr (3, ''a'' @ [backslash, backtick, backtick])" .
  from d2 d1 r2 r1 show ?thesis by blast
qed

text \<open>
  C6. When the region behind the marker holds an escaped backtick, a backslash met with
  the flag clear and a backtick right behind it, before any backtick met with the flag
  clear, the scan goes past it and ends at the first backtick met with the flag clear
  behind it. The content is the region up to that backtick, character by character:
  the backslash and the escaped backtick are in it, nothing is stripped or rewritten.
\<close>

theorem escaped_delimiter_is_kept:
  assumes "first_occurrence marker data k"
    and "drop (k + length marker) data = pre @ backslash # backtick # post"
    and "\<forall>m. \<not> unescaped_delim False pre m"
    and "\<not> flag_after False pre"
    and "unescaped_delim False post n"
    and "\<forall>m<n. \<not> unescaped_delim False post m"
  shows "extract_content data = Inr (pre @ backslash # backtick # take n post) \<and>
    scan_loop data (k + length marker) [] False =
      Inr (k + length marker + length pre + 2 + n, pre @ backslash # backtick # take n post @ [backtick])"
proof -
  let ?s = "k + length marker"
  let ?xs = "pre @ [backslash, backtick]"
  from assms(3) have p: "first_term False pre = None" by (simp add: first_term_None_iff)
  have e: "first_term False [backslash, backtick] = None"
    by (simp add: loop_body_def backslash_neq_backtick [symmetric])
  have x: "first_term False ?xs = None"
    using first_term_append [OF p, of "[backslash, backtick]"] assms(4) e by simp
  have fl: "\<not> flag_after False ?xs"
    by (simp add: flag_after_append backslash_neq_backtick [symmetric])
  from assms(5,6) have t: "first_term False post = Some n" by (simp add: first_term_Some_iff)
  from assms(5) have nl: "n < length post" "post ! n = backtick"
    by (simp_all add: unescaped_delim_def)
  from assms(2) have d: "drop ?s data = ?xs @ post" by simp
  have ft: "first_term False (drop ?s data) = Some (length pre + 2 + n)"
    using first_term_append [OF x, of post] fl t d by simp
  have tk: "take (length pre + 2 + n) (drop ?s data) = pre @ backslash # backtick # take n post"
    using d by simp
  from nl have a: "take (Suc n) post = take n post @ [backtick]"
    by (simp add: take_Suc_conv_app_nth)
  have tk': "take (Suc (length pre + 2 + n)) (drop ?s data)
      = pre @ backslash # backtick # take n post @ [backtick]"
    using d a by (simp add: numeral_3_eq_3)
  from extract_content_found [OF assms(1) ft] tk
  have c: "extract_content data = Inr (pre @ backslash # backtick # take n post)" by simp
  have "scan_loop data ?s [] False =
      Inr (?s + length pre + 2 + n, pre @ backslash # backtick # take n post @ [backtick])"
    using ft tk' by (simp add: scan_loop_first_term add.assoc)
  with c show ?thesis by simp
qed

theorem escaped_delimiter_is_kept_witness:
  "first_occurrence marker (''const js = `a'' @ [backslash, backtick] @ ''b`;'') 0 \<and>
   drop (0 + length marker) (''const js = `a'' @ [backslash, backtick] @ ''b`;'')
     = ''a'' @ backslash # backtick # ''b`;'' \<and>
   unescaped_delim False ''b`;'' 1 \<and>
   extract_content (''const js = `a'' @ [backslash, backtick] @ ''b`;'')
     = Inr [CHR ''a'', backslash, backtick, CHR ''b'']"
proof -
  let ?d = "''const js = `a'' @ [backslash, backtick] @ ''b`;''"
  have "py_index ?d marker = Some 0" by code_simp
  then have k: "first_occurrence marker ?d 0" by (simp only: py_index_Some_iff)
  have d: "drop (0 + length marker) ?d = ''a'' @ backslash # backtick # ''b`;''"
    by (simp add: marker_def)
  have "first_term False ''a'' = None" by code_simp
  then have u: "\<forall>m. \<not> unescaped_delim False ''a'' m" using first_term_None_iff by blast
  have c: "\<not> flag_after False ''a''" by (simp add: backslash_def)
  have "first_term False ''b`;'' = Some 1" by code_simp
  then have n: "unescaped_delim False ''b`;'' 1 \<and> (\<forall>m<1. \<not> unescaped_delim False ''b`;'' m)"
    using first_term_Some_iff by blast
  from n have n1: "unescaped_delim False ''b`;'' 1"
    and n2: "\<forall>m<1. \<not> unescaped_delim False ''b`;'' m" by blast+
  from escaped_delimiter_is_kept [OF k d u c n1 n2]
  have "extract_content ?d = Inr [CHR ''a'', backslash, backtick, CHR ''b'']"
    by simp
  with k d n1 show ?thesis by blast
qed

text \<open>
  C7, as the code has it. When the current character is the backtick and the flag is
  clear, the scan ends at this position. The flag is not cleared before this check: the
  check reads the flag as the previous character left it, and only a character that is
  no backslash and does not end the scan clears it, after the check. So a set flag makes
  the scan pass a backtick, and it does so for that one character only: the flag is
  clear behind it, and a backtick that follows at once ends the scan.
\<close>

theorem delimiter_checked_before_flag_is_cleared:
  assumes "i < length data" and "data ! i = backtick"
  shows "scan_loop data i out False = Inr (i, out @ [backtick]) \<and>
    scan_loop data i out True = scan_loop data (i + 1) (out @ [backtick]) False \<and>
    (\<forall>ch e. ch \<noteq> backslash \<and> loop_body ch e \<noteq> Break \<longrightarrow> loop_body ch e = Continue False) \<and>
    (i + 1 < length data \<and> data ! (i + 1) = backtick \<longrightarrow>
       scan_loop data i out True = Inr (i + 1, out @ [backtick, backtick]))"
proof -
  from assms have d: "drop i data = backtick # drop (Suc i) data" by (rule drop_at_backtick)
  have a: "scan_loop data i out False = Inr (i, out @ [backtick])"
    using d by (rule scan_loop_at_backtick(1))
  have b: "scan_loop data i out True = scan_loop data (i + 1) (out @ [backtick]) False"
    using d by (rule scan_loop_at_backtick(2))
  have c: "\<forall>ch e. ch \<noteq> backslash \<and> loop_body ch e \<noteq> Break \<longrightarrow> loop_body ch e = Continue False"
    by (simp add: loop_body_def)
  have e: "scan_loop data i out True = Inr (i + 1, out @ [backtick, backtick])"
    if n: "i + 1 < length data \<and> data ! (i + 1) = backtick"
  proof -
    from n have "drop (i + 1) data = backtick # drop (Suc (i + 1)) data"
      by (simp add: drop_at_backtick)
    then have "scan_loop data (i + 1) (out @ [backtick]) False = Inr (i + 1, (out @ [backtick]) @ [backtick])"
      by (rule scan_loop_at_backtick(1))
    with b show ?thesis by simp
  qed
  from a b c e show ?thesis by blast
qed

theorem delimiter_checked_before_flag_is_cleared_witness:
  "0 < length [backtick, backtick] \<and> [backtick, backtick] ! 0 = backtick \<and>
   scan_loop [backtick, backtick] 0 [] False = Inr (0, [backtick]) \<and>
   scan_loop [backtick, backtick] 0 [] True = Inr (1, [backtick, backtick])"
proof -
  have l: "0 < length [backtick, backtick]" by simp
  have n: "[backtick, backtick] ! 0 = backtick" by simp
  from delimiter_checked_before_flag_is_cleared [OF l n, of "[]"]
  have a: "scan_loop [backtick, backtick] 0 [] False = Inr (0, [] @ [backtick])"
    and b: "0 + 1 < length [backtick, backtick] \<and> [backtick, backtick] ! (0 + 1) = backtick \<longrightarrow>
       scan_loop [backtick, backtick] 0 [] True = Inr (0 + 1, [] @ [backtick, backtick])"
    by blast+
  from b have "scan_loop [backtick, backtick] 0 [] True = Inr (1, [backtick, backtick])"
    by simp
  with l n a show ?thesis by simp
qed

text \<open>
  The claim as worded fails on a backtick met with the flag set: the code goes on, the
  body that clears the flag before the check would end the scan.
\<close>

theorem flag_cleared_before_check_counterexample:
  "loop_body backtick True = Continue False \<and>
   loop_body_clear_first backtick True = Break \<and>
   loop_body backtick True \<noteq> loop_body_clear_first backtick True"
  by (simp add: loop_body_def loop_body_clear_first_def backslash_def backtick_def)

text \<open>
  C8. The script is a function of the input file's text. Two file systems with the same
  input file end the script the same way, and when it succeeds they hold the same output
  file afterwards. Running the script again on the file system a run has left behind,
  the input file is unchanged, gives that file system again, with the same output file.
\<close>

theorem output_depends_only_on_input_text:
  assumes "files1 input_path = files2 input_path"
  shows "snd (temp_extract files1) = snd (temp_extract files2) \<and>
    (snd (temp_extract files1) = None \<longrightarrow>
       fst (temp_extract files1) output_path = fst (temp_extract files2) output_path) \<and>
    fst (temp_extract files1) input_path = files1 input_path \<and>
    temp_extract (fst (temp_extract files1)) = temp_extract files1"
proof -
  have same: "snd (temp_extract files1) = snd (temp_extract files2) \<and>
    (snd (temp_extract files1) = None \<longrightarrow>
       fst (temp_extract files1) output_path = fst (temp_extract files2) output_path)"
    using assms
    by (simp add: temp_extract_def read_text_def write_text_def split: option.splits sum.splits)
  have inp: "fst (temp_extract files1) input_path = files1 input_path"
    using input_path_neq_output_path
    by (simp add: temp_extract_def read_text_def write_text_def split: option.splits sum.splits)
  have again: "temp_extract (fst (temp_extract files1)) = temp_extract files1"
  proof (cases "files1 input_path")
    case None
    then show ?thesis by (simp add: temp_extract_def read_text_def)
  next
    case (Some data)
    show ?thesis
    proof (cases "extract_content data")
      case (Inl err)
      from temp_extract_failure [of files1 data, OF Some Inl] show ?thesis by simp
    next
      case (Inr content)
      let ?f = "files1(output_path \<mapsto> output_text content)"
      from temp_extract_success [of files1 data, OF Some Inr]
      have t: "temp_extract files1 = (?f, None)" .
      have "?f input_path = Some data"
        using Some input_path_neq_output_path by simp
      from temp_extract_success [of ?f data, OF this Inr]
      have "temp_extract ?f = (?f, None)" by simp
      with t show ?thesis by simp
    qed
  qed
  from same inp again show ?thesis by blast
qed

theorem output_depends_only_on_input_text_witness:
  "[input_path \<mapsto> ''const js = `abc`''] input_path
     = [input_path \<mapsto> ''const js = `abc`'', output_path \<mapsto> ''old''] input_path \<and>
   snd (temp_extract [input_path \<mapsto> ''const js = `abc`'']) = None \<and>
   fst (temp_extract [input_path \<mapsto> ''const js = `abc`'']) output_path
     = fst (temp_extract [input_path \<mapsto> ''const js = `abc`'', output_path \<mapsto> ''old'']) output_path \<and>
   temp_extract (fst (temp_extract [input_path \<mapsto> ''const js = `abc`'']))
     = temp_extract [input_path \<mapsto> ''const js = `abc`'']"
proof -
  let ?d = "''const js = `abc`''"
  let ?f1 = "[input_path \<mapsto> ?d]"
  let ?f2 = "[input_path \<mapsto> ?d, output_path \<mapsto> ''old'']"
  have h: "?f1 input_path = ?f2 input_path"
    by (simp add: input_path_def output_path_def)
  have c: "extract_content ?d = Inr ''abc''" by code_simp
  have f: "?f1 input_path = Some ?d" by simp
  from temp_extract_success [of ?f1 ?d, OF f c]
  have s: "snd (temp_extract ?f1) = None" by simp
  from output_depends_only_on_input_text [of ?f1 ?f2, OF h] s
  have "fst (temp_extract ?f1) output_path = fst (temp_extract ?f2) output_path"
    and "temp_extract (fst (temp_extract ?f1)) = temp_extract ?f1"
    by blast+
  with h s show ?thesis by blast
qed

text \<open>
  C9. When the character right behind the first occurrence of the marker is a backtick
  (the flag is clear there, so it is not escaped), extraction succeeds with the empty
  content and the output file is written all the same: the fixed prefix, at once followed
  by the closing sequence and the output statement.
\<close>

theorem delimiter_right_after_marker_gives_empty_content:
  assumes "files input_path = Some data"
    and "first_occurrence marker data k"
    and "k + length marker < length data"
    and "data ! (k + length marker) = backtick"
  shows "extract_content data = Inr [] \<and>
    temp_extract files =
      (files(output_path \<mapsto> fixed_prefix @ closing_sequence @ output_statement), None)"
proof -
  from assms(3,4) have "drop (k + length marker) data = backtick # drop (Suc (k + length marker)) data"
    by (rule drop_at_backtick)
  then have "first_term False (drop (k + length marker) data) = Some 0"
    by (simp add: loop_body_def backslash_neq_backtick [symmetric])
  from extract_content_found [OF assms(2) this]
  have e: "extract_content data = Inr []" by simp
  from temp_extract_success [of files data, OF assms(1) e]
  have "temp_extract files =
      (files(output_path \<mapsto> fixed_prefix @ closing_sequence @ output_statement), None)"
    by (simp add: output_text_pieces)
  with e show ?thesis by simp
qed

theorem delimiter_right_after_marker_gives_empty_content_witness:
  "[input_path \<mapsto> ''const js = ``;''] input_path = Some ''const js = ``;'' \<and>
   first_occurrence marker ''const js = ``;'' 0 \<and>
   0 + length marker < length ''const js = ``;'' \<and>
   ''const js = ``;'' ! (0 + length marker) = backtick \<and>
   extract_content ''const js = ``;'' = Inr [] \<and>
   temp_extract [input_path \<mapsto> ''const js = ``;''] =
     ([input_path \<mapsto> ''const js = ``;'',
       output_path \<mapsto> ''const js = ``;\<newline>console.log(js);\<newline>''], None)"
proof -
  let ?d = "''const js = ``;''"
  have f: "[input_path \<mapsto> ?d] input_path = Some ?d" by simp
  have "py_index ?d marker = Some 0" by code_simp
  then have k: "first_occurrence marker ?d 0" by (simp only: py_index_Some_iff)
  have l: "0 + length marker < length ?d" by (simp add: marker_def)
  have b: "?d ! (0 + length marker) = backtick" by (simp add: marker_def backtick_def)
  from delimiter_right_after_marker_gives_empty_content [of "[input_path \<mapsto> ?d]" ?d 0, OF f k l b]
  have e: "extract_content ?d = Inr []"
    and "temp_extract [input_path \<mapsto> ?d] =
      ([input_path \<mapsto> ?d, output_path \<mapsto> fixed_prefix @ closing_sequence @ output_statement], None)"
    by blast+
  then have "temp_extract [input_path \<mapsto> ?d] =
     ([input_path \<mapsto> ?d, output_path \<mapsto> ''const js = ``;\<newline>console.log(js);\<newline>''], None)"
    by (simp add: fixed_prefix_def closing_sequence_def output_statement_def)
  with f k l b e show ?thesis by blast
qed

text \<open>
  C10. Every backtick inside the successfully extracted content stands where the flag,
  computed by the toggling from the start of the region, was set. The content is a
  prefix of the region behind the marker, the region holds a backtick met with the flag
  clear right behind it, and no backtick met with the flag clear stands earlier in the
  region: the content is the shortest prefix that ends before such a backtick.
\<close>

theorem content_ends_at_first_unescaped_delimiter:
  assumes "first_occurrence marker data k" and "extract_content data = Inr content"
  shows "(\<forall>j<length content. content ! j = backtick \<longrightarrow> flag_after False (take j content)) \<and>
    content = take (length content) (drop (k + length marker) data) \<and>
    unescaped_delim False (drop (k + length marker) data) (length content) \<and>
    (\<forall>n. unescaped_delim False (drop (k + length marker) data) n \<longrightarrow> length content \<le> n)"
proof -
  let ?r = "drop (k + length marker) data"
  obtain n where n: "first_term False ?r = Some n"
  proof (cases "first_term False ?r")
    case None
    from extract_content_not_found [OF assms(1) None] assms(2) show ?thesis by simp
  next
    case (Some n)
    then show ?thesis by (rule that)
  qed
  from extract_content_found [OF assms(1) n] assms(2) have c: "content = take n ?r" by simp
  from n have u: "unescaped_delim False ?r n" and m: "\<forall>m<n. \<not> unescaped_delim False ?r m"
    by (simp_all add: first_term_Some_iff)
  from u have nl: "n < length ?r" by (simp add: unescaped_delim_def)
  with c have len: "length content = n" by simp
  have inner: "flag_after False (take j content)" if j: "j < length content" "content ! j = backtick" for j
  proof -
    from j(1) len have jn: "j < n" by simp
    with m have nu: "\<not> unescaped_delim False ?r j" by simp
    from jn nl have jl: "j < length ?r" by simp
    from j(2) c jn have rj: "?r ! j = backtick" by simp
    from c jn have tj: "take j content = take j ?r" by (simp add: min_def)
    from nu jl rj have "flag_after False (take j ?r)" by (simp add: unescaped_delim_def)
    with tj show ?thesis by simp
  qed
  have least: "length content \<le> n'" if "unescaped_delim False ?r n'" for n'
  proof (rule ccontr)
    assume "\<not> length content \<le> n'"
    with len have "n' < n" by simp
    with m that show False by simp
  qed
  from len c have pre: "content = take (length content) ?r" by simp
  from len u have stop: "unescaped_delim False ?r (length content)" by simp
  from inner least pre stop show ?thesis by blast
qed

theorem content_ends_at_first_unescaped_delimiter_witness:
  "first_occurrence marker (''const js = `a'' @ [backslash, backtick] @ ''b`c`'') 0 \<and>
   extract_content (''const js = `a'' @ [backslash, backtick] @ ''b`c`'')
     = Inr [CHR ''a'', backslash, backtick, CHR ''b''] \<and>
   flag_after False (take 2 [CHR ''a'', backslash, backtick, CHR ''b'']) \<and>
   unescaped_delim False (drop (0 + length marker) (''const js = `a'' @ [backslash, backtick] @ ''b`c`'')) 4"
proof -
  let ?d = "''const js = `a'' @ [backslash, backtick] @ ''b`c`''"
  let ?c = "[CHR ''a'', backslash, backtick, CHR ''b'']"
  have "py_index ?d marker = Some 0" by code_simp
  then have k: "first_occurrence marker ?d 0" by (simp only: py_index_Some_iff)
  have e: "extract_content ?d = Inr ?c" by code_simp
  from content_ends_at_first_unescaped_delimiter [OF k e]
  have a: "\<forall>j<length ?c. ?c ! j = backtick \<longrightarrow> flag_after False (take j ?c)"
    and u: "unescaped_delim False (drop (0 + length marker) ?d) (length ?c)"
    by blast+
  have "(2::nat) < length ?c" "?c ! 2 = backtick" by simp_all
  with a have fl: "flag_after False (take 2 ?c)" by blast
  have lc: "length ?c = 4" by simp
  from u have "unescaped_delim False (drop (0 + length marker) ?d) 4" unfolding lc .
  with k e fl show ?thesis by blast
qed

end
